theory Spec2Isabelle
  imports Complex_Main "HOL-Library.Word"
begin

section \<open>Newsletter form handler (src/js/newsletter.js)\<close>

subsection \<open>JavaScript strings and values\<close>

text \<open>
  A JavaScript string is a sequence of UTF-16 code units; \<open>length\<close>, \<open>includes\<close>,
  \<open>split\<close>, \<open>trim\<close> and a regular expression without the \<open>u\<close> flag all work on code
  units. String literals of the source are ASCII and are written \<open>js ''...''\<close>.
\<close>

type_synonym code_unit = "16 word"
type_synonym jsstring = "code_unit list"

definition cu :: "char \<Rightarrow> code_unit" where
  "cu c = of_char c"

definition js :: "string \<Rightarrow> jsstring" where
  "js s = map cu s"

text \<open>
  The values a caller can pass through the public interface \<open>window.Newsletter\<close>.
  Only \<open>typeof\<close> and the truth value of an argument are inspected by the code, so
  numbers carry a rational or one of the special values, and objects, functions and
  symbols carry an identity.
\<close>

datatype jsnumber = NaN | Infinity bool | Finite rat

datatype jsvalue =
    JUndefined
  | JNull
  | JBoolean bool
  | JNumber jsnumber
  | JBigInt int
  | JString jsstring
  | JSymbol nat
  | JFunction nat
  | JObject nat

text \<open>The \<open>typeof\<close> operator.\<close>

fun typeof :: "jsvalue \<Rightarrow> string" where
  "typeof JUndefined = ''undefined''"
| "typeof JNull = ''object''"
| "typeof (JBoolean _) = ''boolean''"
| "typeof (JNumber _) = ''number''"
| "typeof (JBigInt _) = ''bigint''"
| "typeof (JString _) = ''string''"
| "typeof (JSymbol _) = ''symbol''"
| "typeof (JFunction _) = ''function''"
| "typeof (JObject _) = ''object''"

text \<open>ToBoolean, the truth value used by \<open>!\<close> and \<open>if\<close>.\<close>

fun truthy :: "jsvalue \<Rightarrow> bool" where
  "truthy JUndefined = False"
| "truthy JNull = False"
| "truthy (JBoolean b) = b"
| "truthy (JNumber NaN) = False"
| "truthy (JNumber (Infinity _)) = True"
| "truthy (JNumber (Finite q)) = (q \<noteq> 0)"
| "truthy (JBigInt i) = (i \<noteq> 0)"
| "truthy (JString s) = (s \<noteq> [])"
| "truthy (JSymbol _) = True"
| "truthy (JFunction _) = True"
| "truthy (JObject _) = True"

datatype js_error = TypeError

text \<open>
  Reading a string out of a value for a string method (\<open>email.length\<close>,
  \<open>email.includes\<close>, \<open>email.split\<close>): on \<open>null\<close> and \<open>undefined\<close> a property access
  throws a TypeError. The code only reaches its string operations behind the guard
  \<open>typeof email !== 'string'\<close>; the model is strict and lets every value that is not a
  string fail here, so that the guard is what keeps the function from throwing.
\<close>

fun the_string :: "jsvalue \<Rightarrow> js_error + jsstring" where
  "the_string (JString s) = Inr s"
| "the_string _ = Inl TypeError"

subsection \<open>String methods\<close>

text \<open>\<open>s.startsWith(p)\<close> and \<open>s.includes(p)\<close>.\<close>

fun starts_with :: "jsstring \<Rightarrow> jsstring \<Rightarrow> bool" where
  "starts_with s [] = True"
| "starts_with [] (p # ps) = False"
| "starts_with (x # xs) (p # ps) = (x = p \<and> starts_with xs ps)"

fun js_includes :: "jsstring \<Rightarrow> jsstring \<Rightarrow> bool" where
  "js_includes [] p = (p = [])"
| "js_includes (x # xs) p = (starts_with (x # xs) p \<or> js_includes xs p)"

text \<open>
  \<open>s.split(c)\<close> for a separator of one code unit: the pieces between the occurrences of
  the separator, in order; the empty string splits into one empty piece.
\<close>

fun split_on :: "code_unit \<Rightarrow> jsstring \<Rightarrow> jsstring list" where
  "split_on c [] = [[]]"
| "split_on c (x # xs) =
     (if x = c then [] # split_on c xs
      else (x # hd (split_on c xs)) # tl (split_on c xs))"

text \<open>
  \<open>s.trim()\<close> removes leading and trailing WhiteSpace and LineTerminator code units
  (ECMAScript: TAB, VT, FF, SP, NBSP, ZWNBSP, the Unicode space separators, and LF, CR,
  LS, PS).
\<close>

definition is_js_whitespace :: "code_unit \<Rightarrow> bool" where
  "is_js_whitespace c =
     (c = 0x0009 \<or> c = 0x000A \<or> c = 0x000B \<or> c = 0x000C \<or> c = 0x000D \<or> c = 0x0020
      \<or> c = 0x00A0 \<or> c = 0x1680 \<or> (0x2000 \<le> c \<and> c \<le> 0x200A) \<or> c = 0x2028
      \<or> c = 0x2029 \<or> c = 0x202F \<or> c = 0x205F \<or> c = 0x3000 \<or> c = 0xFEFF)"

definition js_trim :: "jsstring \<Rightarrow> jsstring" where
  "js_trim s = rev (dropWhile is_js_whitespace (rev (dropWhile is_js_whitespace s)))"

subsection \<open>Regular expressions\<close>

text \<open>
  The fragment of regular expressions the source uses: a bracket expression of ranges
  and single characters, a literal character, sequence, \<open>(?:r)?\<close>, \<open>r*\<close>, \<open>r+\<close> and
  \<open>r{0,n}\<close>. \<open>Nothing\<close>, \<open>Epsilon\<close> and \<open>Alt\<close> are the empty language, the empty word and
  union; the matcher needs them for its intermediate expressions.
\<close>

datatype class_item = CRange code_unit code_unit | CChar code_unit

fun in_item :: "code_unit \<Rightarrow> class_item \<Rightarrow> bool" where
  "in_item c (CRange lo hi) = (lo \<le> c \<and> c \<le> hi)"
| "in_item c (CChar x) = (c = x)"

definition in_class :: "class_item list \<Rightarrow> code_unit \<Rightarrow> bool" where
  "in_class cs c = list_ex (in_item c) cs"

datatype regex =
    Nothing
  | Epsilon
  | Lit code_unit
  | Class "class_item list"
  | Alt regex regex
  | Cat regex regex
  | Star regex
  | Upto nat regex

definition Optional :: "regex \<Rightarrow> regex" where
  "Optional r = Alt r Epsilon"

definition OneOrMore :: "regex \<Rightarrow> regex" where
  "OneOrMore r = Cat r (Star r)"

text \<open>The words a regular expression denotes.\<close>

definition conc :: "jsstring set \<Rightarrow> jsstring set \<Rightarrow> jsstring set" where
  "conc A B = {u @ v | u v. u \<in> A \<and> v \<in> B}"

inductive_set star :: "jsstring set \<Rightarrow> jsstring set" for A :: "jsstring set" where
  star_empty: "[] \<in> star A"
| star_step: "u \<in> A \<Longrightarrow> v \<in> star A \<Longrightarrow> u @ v \<in> star A"

primrec upto_lang :: "nat \<Rightarrow> jsstring set \<Rightarrow> jsstring set" where
  "upto_lang 0 A = {[]}"
| "upto_lang (Suc n) A = insert [] (conc A (upto_lang n A))"

fun lang :: "regex \<Rightarrow> jsstring set" where
  "lang Nothing = {}"
| "lang Epsilon = {[]}"
| "lang (Lit c) = {[c]}"
| "lang (Class cs) = {[c] | c. in_class cs c}"
| "lang (Alt r s) = lang r \<union> lang s"
| "lang (Cat r s) = conc (lang r) (lang s)"
| "lang (Star r) = star (lang r)"
| "lang (Upto n r) = upto_lang n (lang r)"

text \<open>
  The matcher: \<open>deriv c r\<close> denotes the words \<open>w\<close> with \<open>c # w\<close> in \<open>lang r\<close>, and
  \<open>nullable r\<close> says whether the empty word is in \<open>lang r\<close>. \<open>regex_test r s\<close> is
  \<open>/^r$/.test(s)\<close>: without the \<open>m\<close> flag the anchors are the two ends of the input, and
  without the \<open>g\<close> and \<open>y\<close> flags \<open>test\<close> keeps no state between calls.
\<close>

fun nullable :: "regex \<Rightarrow> bool" where
  "nullable Nothing = False"
| "nullable Epsilon = True"
| "nullable (Lit c) = False"
| "nullable (Class cs) = False"
| "nullable (Alt r s) = (nullable r \<or> nullable s)"
| "nullable (Cat r s) = (nullable r \<and> nullable s)"
| "nullable (Star r) = True"
| "nullable (Upto n r) = True"

fun deriv :: "code_unit \<Rightarrow> regex \<Rightarrow> regex" where
  "deriv c Nothing = Nothing"
| "deriv c Epsilon = Nothing"
| "deriv c (Lit x) = (if c = x then Epsilon else Nothing)"
| "deriv c (Class cs) = (if in_class cs c then Epsilon else Nothing)"
| "deriv c (Alt r s) = Alt (deriv c r) (deriv c s)"
| "deriv c (Cat r s) =
     (if nullable r then Alt (Cat (deriv c r) s) (deriv c s) else Cat (deriv c r) s)"
| "deriv c (Star r) = Cat (deriv c r) (Star r)"
| "deriv c (Upto n r) = (if n = 0 then Nothing else Cat (deriv c r) (Upto (n - 1) r))"

fun derivs :: "jsstring \<Rightarrow> regex \<Rightarrow> regex" where
  "derivs [] r = r"
| "derivs (c # cs) r = derivs cs (deriv c r)"

definition regex_test :: "regex \<Rightarrow> jsstring \<Rightarrow> bool" where
  "regex_test r s = nullable (derivs s r)"

subsection \<open>Email validation\<close>

text \<open>
  \<^verbatim>\<open>const EMAIL_REGEX = /^[a-zA-Z0-9.!#$%&'*+/=?^_`{|}~-]+@[a-zA-Z0-9](?:[a-zA-Z0-9-]{0,61}[a-zA-Z0-9])?(?:\.[a-zA-Z0-9](?:[a-zA-Z0-9-]{0,61}[a-zA-Z0-9])?)*$/;\<close>
\<close>

definition alnum_class :: "class_item list" where
  "alnum_class =
     [CRange (cu CHR ''a'') (cu CHR ''z''), CRange (cu CHR ''A'') (cu CHR ''Z''),
      CRange (cu CHR ''0'') (cu CHR ''9'')]"

definition alnum_hyphen_class :: "class_item list" where
  "alnum_hyphen_class = alnum_class @ [CChar (cu CHR ''-'')]"

definition local_class :: "class_item list" where
  "local_class =
     alnum_class @ map (\<lambda>c. CChar (cu c)) (''.!#$%&'' @ [CHR 0x27] @ ''*+/=?^_`{|}~-'')"

definition label_regex :: regex where
  "label_regex =
     Cat (Class alnum_class) (Optional (Cat (Upto 61 (Class alnum_hyphen_class)) (Class alnum_class)))"

definition EMAIL_REGEX :: regex where
  "EMAIL_REGEX =
     Cat (OneOrMore (Class local_class))
       (Cat (Lit (cu CHR ''@''))
         (Cat label_regex (Star (Cat (Lit (cu CHR ''.'')) label_regex))))"

text \<open>
  \<open>isValidEmail\<close>, exported as \<open>window.Newsletter.validateEmail\<close>. The source returns
  a boolean from every branch; \<open>Inl\<close> is a thrown error.
\<close>

definition isValidEmail :: "jsvalue \<Rightarrow> js_error + bool" where
  "isValidEmail email =
     (if \<not> truthy email \<or> typeof email \<noteq> ''string'' then Inr False
      else case the_string email of
        Inl e \<Rightarrow> Inl e
      | Inr s \<Rightarrow>
          if length s > 254 then Inr False
          else if \<not> regex_test EMAIL_REGEX s then Inr False
          else if js_includes s (js ''..'') then Inr False
          else let localPart = hd (split_on (cu CHR ''@'') s)
               in if length localPart > 64 then Inr False else Inr True)"

definition validateEmail :: "jsvalue \<Rightarrow> js_error + bool" where
  "validateEmail = isValidEmail"

subsection \<open>Messages and module state\<close>

datatype error_message =
    INVALID_EMAIL
  | EMPTY_EMAIL
  | PRIVACY_NOT_ACCEPTED
  | RATE_LIMIT
  | NETWORK_ERROR
  | GENERIC_ERROR
  | ALREADY_SUBSCRIBED

fun ERROR_MESSAGES :: "error_message \<Rightarrow> string" where
  "ERROR_MESSAGES INVALID_EMAIL = ''Please enter a valid email address''"
| "ERROR_MESSAGES EMPTY_EMAIL = ''Email address is required''"
| "ERROR_MESSAGES PRIVACY_NOT_ACCEPTED = ''Please accept the privacy policy to continue''"
| "ERROR_MESSAGES RATE_LIMIT = ''Too many submission attempts. Please try again later''"
| "ERROR_MESSAGES NETWORK_ERROR =
     ''Unable to submit. Please check your connection and try again''"
| "ERROR_MESSAGES GENERIC_ERROR = ''An error occurred. Please try again''"
| "ERROR_MESSAGES ALREADY_SUBSCRIBED =
     ''This email is already subscribed to our newsletter''"

definition SUBSCRIPTION_SUCCESS :: string where
  "SUBSCRIPTION_SUCCESS =
     ''Thank you for subscribing! Check your email to confirm your subscription.''"

text \<open>
  The module's \<open>state\<close> object. Times are milliseconds as \<open>Date.now()\<close> returns them;
  the counter starts at 0 and is only reset to 0 or incremented. \<open>isInitialized\<close> is
  written by \<open>init\<close> alone, which attaches the handlers modelled below.
\<close>

record state =
  isInitialized :: bool
  isSubmitting :: bool
  lastSubmissionTime :: int
  submissionCount :: nat
  rateLimitWindow :: int
  maxSubmissionsPerWindow :: nat

definition initial_state :: state where
  "initial_state =
     \<lparr>isInitialized = False, isSubmitting = False, lastSubmissionTime = 0,
      submissionCount = 0, rateLimitWindow = 60000, maxSubmissionsPerWindow = 3\<rparr>"

subsection \<open>Form validation\<close>

text \<open>
  What \<open>validateForm\<close> reads from the page: the value of the email input, and the
  privacy checkbox, which is \<open>None\<close> when the form has no \<open>[data-newsletter-privacy]\<close>
  element and otherwise holds its \<open>checked\<close> property.
\<close>

record form_elements =
  emailInput_value :: jsstring
  privacyCheckbox :: "bool option"

record subscription_data =
  email :: jsstring
  timestamp :: int
  source :: string

text \<open>The object \<open>validateForm\<close> returns: \<open>{isValid: false, error}\<close> or \<open>{isValid: true, data}\<close>.\<close>

datatype validation_result = Invalid error_message | Valid subscription_data

text \<open>
  \<open>now\<close> is the value of \<open>Date.now()\<close> read for the timestamp. An error thrown by
  \<open>isValidEmail\<close> would leave \<open>validateForm\<close> as it is thrown.
\<close>

definition validateForm :: "form_elements \<Rightarrow> int \<Rightarrow> js_error + validation_result" where
  "validateForm els now =
     (let email = js_trim (emailInput_value els) in
      if email = [] then Inr (Invalid EMPTY_EMAIL)
      else case isValidEmail (JString email) of
        Inl e \<Rightarrow> Inl e
      | Inr valid \<Rightarrow>
          if \<not> valid then Inr (Invalid INVALID_EMAIL)
          else if (case privacyCheckbox els of None \<Rightarrow> False | Some checked \<Rightarrow> \<not> checked)
            then Inr (Invalid PRIVACY_NOT_ACCEPTED)
          else Inr (Valid \<lparr>email = email, timestamp = now, source = ''landing_page''\<rparr>))"

subsection \<open>Rate limiting\<close>

text \<open>\<open>checkRateLimit\<close> reads the clock, may reset the counter in \<open>state\<close>, and answers.\<close>

definition checkRateLimit :: "state \<Rightarrow> int \<Rightarrow> bool \<times> state" where
  "checkRateLimit s now =
     (let timeSinceLastSubmission = now - lastSubmissionTime s;
          s' = (if timeSinceLastSubmission > rateLimitWindow s
                then s\<lparr>submissionCount := 0\<rparr> else s)
      in if submissionCount s' \<ge> maxSubmissionsPerWindow s' then (False, s')
         else (True, s'))"

subsection \<open>Submission\<close>

text \<open>
  The response object of the transport, and how the awaited call settles: the promise
  resolves with a response or rejects. \<open>subscriptionId\<close> holds the number that follows
  \<open>sub_\<close>.
\<close>

record api_response =
  success :: bool
  message :: "string option"
  subscriptionId :: "int option"
  error :: "string option"

datatype transport_result = Resolved api_response | Rejected

text \<open>
  \<open>simulateApiCall\<close>: the promise resolves when its timer fires, at time \<open>now\<close>;
  \<open>isSuccess\<close> is the outcome of \<open>Math.random() > 0.1\<close>.
\<close>

definition simulateApiCall :: "bool \<Rightarrow> int \<Rightarrow> transport_result" where
  "simulateApiCall isSuccess now =
     (if isSuccess
      then Resolved \<lparr>success = True, message = Some SUBSCRIPTION_SUCCESS,
                     subscriptionId = Some now, error = None\<rparr>
      else Resolved \<lparr>success = False, message = None, subscriptionId = None,
                     error = Some (ERROR_MESSAGES GENERIC_ERROR)\<rparr>)"

text \<open>
  The page: the module state and the calls of the transport whose promise has not
  settled yet, oldest first. Of the DOM updates only the message a handler shows is
  kept, as the handler's result.
\<close>

record page =
  st :: state
  pending :: "subscription_data list"

definition initial_page :: page where
  "initial_page = \<lparr>st = initial_state, pending = []\<rparr>"

datatype settle_result = ShowSuccess string | ShowError string

definition handleSubmissionSuccess :: "api_response \<Rightarrow> settle_result" where
  "handleSubmissionSuccess response =
     ShowSuccess (case message response of
                    None \<Rightarrow> SUBSCRIPTION_SUCCESS
                  | Some m \<Rightarrow> if m = [] then SUBSCRIPTION_SUCCESS else m)"

definition handleSubmissionError :: "string option \<Rightarrow> settle_result" where
  "handleSubmissionError err =
     ShowError (case err of
                  None \<Rightarrow> ERROR_MESSAGES GENERIC_ERROR
                | Some m \<Rightarrow> if m = [] then ERROR_MESSAGES GENERIC_ERROR else m)"

text \<open>
  \<open>submitForm\<close> is asynchronous. \<open>submitForm_start\<close> is its part up to the \<open>await\<close>: it
  sets the guard and calls the transport. \<open>submitForm_settle\<close> is the part that runs
  when the awaited promise settles, at time \<open>now\<close>: the rest of the \<open>try\<close> block when
  the promise resolved, the \<open>catch\<close> block when it rejected, then the \<open>finally\<close> block.
  The two handlers only write to the DOM and the console and are taken not to throw;
  the \<open>finally\<close> block would run after them all the same.
\<close>

definition submitForm_start :: "subscription_data \<Rightarrow> page \<Rightarrow> page" where
  "submitForm_start data p =
     p\<lparr>st := (st p)\<lparr>isSubmitting := True\<rparr>, pending := pending p @ [data]\<rparr>"

definition submitForm_settle :: "transport_result \<Rightarrow> int \<Rightarrow> page \<Rightarrow> settle_result \<times> page" where
  "submitForm_settle r now p =
     (case r of
        Resolved response \<Rightarrow>
          (let s1 = (st p)\<lparr>lastSubmissionTime := now\<rparr>;
               s2 = s1\<lparr>submissionCount := submissionCount s1 + 1\<rparr>;
               shown = (if success response then handleSubmissionSuccess response
                        else handleSubmissionError (error response))
           in (shown, p\<lparr>st := s2\<lparr>isSubmitting := False\<rparr>, pending := tl (pending p)\<rparr>))
      | Rejected \<Rightarrow>
          (handleSubmissionError (Some (ERROR_MESSAGES NETWORK_ERROR)),
           p\<lparr>st := (st p)\<lparr>isSubmitting := False\<rparr>, pending := tl (pending p)\<rparr>))"

text \<open>
  \<open>handleFormSubmit\<close>, the form's submit handler. \<open>tv\<close> and \<open>tc\<close> are the two readings
  of \<open>Date.now()\<close>, in \<open>validateForm\<close> and in \<open>checkRateLimit\<close>.
\<close>

datatype submit_result =
    InProgress
  | ValidationFailed error_message
  | RateLimited
  | Submitting subscription_data
  | Caught

definition handleFormSubmit :: "form_elements \<Rightarrow> int \<Rightarrow> int \<Rightarrow> page \<Rightarrow> submit_result \<times> page" where
  "handleFormSubmit els tv tc p =
     (if isSubmitting (st p) then (InProgress, p)
      else case validateForm els tv of
        Inl e \<Rightarrow> (Caught, p)
      | Inr (Invalid err) \<Rightarrow> (ValidationFailed err, p)
      | Inr (Valid data) \<Rightarrow>
          (case checkRateLimit (st p) tc of
             (False, s') \<Rightarrow> (RateLimited, p\<lparr>st := s'\<rparr>)
           | (True, s') \<Rightarrow> (Submitting data, submitForm_start data (p\<lparr>st := s'\<rparr>))))"

text \<open>
  What can happen to the page: the user submits the form, or the promise of a pending
  transport call settles. JavaScript runs each handler to completion, so a run of the
  page is a sequence of these events. A promise can only settle when a call is pending.
\<close>

datatype event =
    FormSubmit form_elements int int
  | TransportSettles transport_result int

fun step :: "page \<Rightarrow> event \<Rightarrow> page" where
  "step p (FormSubmit els tv tc) = snd (handleFormSubmit els tv tc p)"
| "step p (TransportSettles r now) =
     (if pending p = [] then p else snd (submitForm_settle r now p))"

definition run :: "page \<Rightarrow> event list \<Rightarrow> page" where
  "run p evs = foldl step p evs"

text \<open>A filled-in form and the two responses of \<open>simulateApiCall\<close>, for the examples.\<close>

definition example_form :: form_elements where
  "example_form = \<lparr>emailInput_value = js ''user@example.com'', privacyCheckbox = Some True\<rparr>"

definition succeeding_response :: "int \<Rightarrow> api_response" where
  "succeeding_response t =
     \<lparr>success = True, message = Some SUBSCRIPTION_SUCCESS, subscriptionId = Some t,
      error = None\<rparr>"

definition failing_response :: api_response where
  "failing_response =
     \<lparr>success = False, message = None, subscriptionId = None,
      error = Some (ERROR_MESSAGES GENERIC_ERROR)\<rparr>"

text \<open>
  One submission attempt at time \<open>t\<close>: the submit handler runs, and when it has called
  the transport, the call settles with \<open>r\<close> at time \<open>t'\<close> before anything else happens.
\<close>

definition attempt ::
  "form_elements \<Rightarrow> int \<Rightarrow> transport_result \<Rightarrow> int \<Rightarrow> page \<Rightarrow> submit_result \<times> page" where
  "attempt els t r t' p =
     (case handleFormSubmit els t t p of
        (Submitting data, q) \<Rightarrow> (Submitting data, snd (submitForm_settle r t' q))
      | (res, q) \<Rightarrow> (res, q))"

text \<open>
  The counter as \<open>checkRateLimit\<close> considers it at time \<open>now\<close>: 0 once the window has
  passed since the last submission.
\<close>

definition count_after_reset :: "state \<Rightarrow> int \<Rightarrow> nat" where
  "count_after_reset s now =
     (if now - lastSubmissionTime s > rateLimitWindow s then 0 else submissionCount s)"

text \<open>What holds of every page that a run reaches from the initial page.\<close>

definition page_inv :: "page \<Rightarrow> bool" where
  "page_inv p =
     (maxSubmissionsPerWindow (st p) = 3 \<and> rateLimitWindow (st p) = 60000
      \<and> submissionCount (st p) \<le> 3
      \<and> (isSubmitting (st p) \<longleftrightarrow> pending p \<noteq> [])
      \<and> length (pending p) \<le> 1
      \<and> (isSubmitting (st p) \<longrightarrow> submissionCount (st p) < 3))"

text \<open>
  The data \<open>validateForm\<close> returns for the example form at time \<open>t\<close>, and the page
  with no call pending whose last submission was at \<open>t0\<close> and whose counter is \<open>n\<close>.
\<close>

definition example_data :: "int \<Rightarrow> subscription_data" where
  "example_data t = \<lparr>email = js ''user@example.com'', timestamp = t, source = ''landing_page''\<rparr>"

definition settled_page :: "int \<Rightarrow> nat \<Rightarrow> page" where
  "settled_page t0 n =
     \<lparr>st = initial_state\<lparr>lastSubmissionTime := t0, submissionCount := n\<rparr>, pending = []\<rparr>"

text \<open>
  Two runs from the initial page, each of three submissions that pass the rate limit
  and settle one second later: in the first the transport answers with a failure, in
  the second with a success.
\<close>

definition three_failing :: "event list" where
  "three_failing =
     [FormSubmit example_form 100000 100000, TransportSettles (Resolved failing_response) 101000,
      FormSubmit example_form 102000 102000, TransportSettles (Resolved failing_response) 103000,
      FormSubmit example_form 104000 104000, TransportSettles (Resolved failing_response) 105000]"

definition three_accepted :: "event list" where
  "three_accepted =
     [FormSubmit example_form 100000 100000, TransportSettles (simulateApiCall True 101000) 101000,
      FormSubmit example_form 130000 130000, TransportSettles (simulateApiCall True 131000) 131000,
      FormSubmit example_form 150000 150000, TransportSettles (simulateApiCall True 151000) 151000]"

subsection \<open>The email grammar in the specification's words\<close>

text \<open>
  The specification describes the grammar as: local-part characters, \<open>@\<close>, domain labels
  separated by \<open>.\<close>, each label 1 to 63 characters, alphanumeric plus hyphen, not starting
  or ending with a hyphen. The specification does not list the local-part characters;
  they are taken to be those of the bracket expression of \<open>EMAIL_REGEX\<close>.
\<close>

definition is_alnum :: "code_unit \<Rightarrow> bool" where
  "is_alnum c =
     ((cu CHR ''a'' \<le> c \<and> c \<le> cu CHR ''z'') \<or> (cu CHR ''A'' \<le> c \<and> c \<le> cu CHR ''Z'')
      \<or> (cu CHR ''0'' \<le> c \<and> c \<le> cu CHR ''9''))"

definition is_label_char :: "code_unit \<Rightarrow> bool" where
  "is_label_char c = (is_alnum c \<or> c = cu CHR ''-'')"

definition is_local_char :: "code_unit \<Rightarrow> bool" where
  "is_local_char c = in_class local_class c"

definition label_ok :: "jsstring \<Rightarrow> bool" where
  "label_ok l =
     (1 \<le> length l \<and> length l \<le> 63 \<and> list_all is_label_char l
      \<and> hd l \<noteq> cu CHR ''-'' \<and> last l \<noteq> cu CHR ''-'')"

definition email_grammar :: "jsstring \<Rightarrow> bool" where
  "email_grammar s =
     (let localPart = takeWhile (\<lambda>c. c \<noteq> cu CHR ''@'') s;
          rest = dropWhile (\<lambda>c. c \<noteq> cu CHR ''@'') s
      in localPart \<noteq> [] \<and> list_all is_local_char localPart \<and> rest \<noteq> []
         \<and> list_all label_ok (split_on (cu CHR ''.'') (tl rest)))"

text \<open>
  The specification's description of \<open>validateSubmission\<close>: the checks in their order,
  each with the error it stands for, and the first check that fails.
\<close>

definition checks_in_order :: "form_elements \<Rightarrow> (bool \<times> error_message) list" where
  "checks_in_order els =
     [(js_trim (emailInput_value els) \<noteq> [], EMPTY_EMAIL),
      (validateEmail (JString (js_trim (emailInput_value els))) = Inr True, INVALID_EMAIL),
      (privacyCheckbox els \<noteq> Some False, PRIVACY_NOT_ACCEPTED)]"

definition first_failing :: "(bool \<times> error_message) list \<Rightarrow> error_message option" where
  "first_failing cs = map_option snd (find (\<lambda>c. \<not> fst c) cs)"

text \<open>The left quotient of a language by a code unit, for the matcher's correctness.\<close>

definition Deriv :: "code_unit \<Rightarrow> jsstring set \<Rightarrow> jsstring set" where
  "Deriv c A = {w. c # w \<in> A}"

text \<open>The words that may follow the first domain label: \<open>(\.label)*\<close>.\<close>

definition tail_lang :: "jsstring set" where
  "tail_lang = star (conc {[cu CHR ''.'']} {w. label_ok w})"

subsection \<open>Correctness of the matcher\<close>

lemma conc_Nil_iff: "[] \<in> conc A B \<longleftrightarrow> [] \<in> A \<and> [] \<in> B"
  by (auto simp: conc_def)

lemma conc_mono: "B \<subseteq> C \<Longrightarrow> conc A B \<subseteq> conc A C"
  by (auto simp: conc_def)

lemma concI: "u \<in> A \<Longrightarrow> v \<in> B \<Longrightarrow> u @ v \<in> conc A B"
  by (auto simp: conc_def)

lemma upto_lang_Nil: "[] \<in> upto_lang n A"
  by (cases n) auto

lemma upto_lang_mono: "upto_lang n A \<subseteq> upto_lang (Suc n) A"
proof (induction n)
  case 0
  show ?case by simp
next
  case (Suc n)
  have "conc A (upto_lang n A) \<subseteq> conc A (upto_lang (Suc n) A)"
    by (rule conc_mono) (rule Suc.IH)
  then show ?case by auto
qed

lemma nullable_iff: "nullable r \<longleftrightarrow> [] \<in> lang r"
  by (induction r) (auto simp: conc_Nil_iff upto_lang_Nil intro: star.star_empty)

lemma Deriv_conc:
  "Deriv c (conc A B) = conc (Deriv c A) B \<union> (if [] \<in> A then Deriv c B else {})"
proof (intro set_eqI iffI)
  fix w assume "w \<in> Deriv c (conc A B)"
  then obtain u v where uv: "c # w = u @ v" "u \<in> A" "v \<in> B"
    by (auto simp: Deriv_def conc_def)
  show "w \<in> conc (Deriv c A) B \<union> (if [] \<in> A then Deriv c B else {})"
  proof (cases u)
    case Nil
    with uv show ?thesis by (auto simp: Deriv_def)
  next
    case (Cons x u')
    with uv have "w = u' @ v" "c # u' \<in> A" by auto
    with uv show ?thesis by (auto simp: Deriv_def conc_def)
  qed
next
  fix w assume "w \<in> conc (Deriv c A) B \<union> (if [] \<in> A then Deriv c B else {})"
  then consider "w \<in> conc (Deriv c A) B" | "[] \<in> A" "w \<in> Deriv c B"
    by (auto split: if_splits)
  then show "w \<in> Deriv c (conc A B)"
  proof cases
    case 1
    then obtain u v where "w = u @ v" "c # u \<in> A" "v \<in> B"
      by (auto simp: Deriv_def conc_def)
    then have "(c # u) @ v \<in> conc A B" by (intro concI)
    with \<open>w = u @ v\<close> show ?thesis by (simp add: Deriv_def)
  next
    case 2
    then have "[] @ (c # w) \<in> conc A B" by (intro concI) (auto simp: Deriv_def)
    then show ?thesis by (simp add: Deriv_def)
  qed
qed

lemma star_Cons_split:
  "w \<in> star A \<Longrightarrow> w = c # t \<Longrightarrow> \<exists>u v. t = u @ v \<and> c # u \<in> A \<and> v \<in> star A"
proof (induction arbitrary: t rule: star.induct)
  case star_empty
  then show ?case by simp
next
  case (star_step u v)
  show ?case
  proof (cases u)
    case Nil
    with star_step show ?thesis by simp
  next
    case (Cons x u')
    with star_step.prems have "t = u' @ v" "x = c" by auto
    with Cons star_step.hyps show ?thesis by blast
  qed
qed

lemma Deriv_star: "Deriv c (star A) = conc (Deriv c A) (star A)"
proof (intro set_eqI iffI)
  fix w assume "w \<in> Deriv c (star A)"
  then have "c # w \<in> star A" by (simp add: Deriv_def)
  from star_Cons_split [OF this refl]
  show "w \<in> conc (Deriv c A) (star A)" by (auto simp: conc_def Deriv_def)
next
  fix w assume "w \<in> conc (Deriv c A) (star A)"
  then obtain u v where "w = u @ v" "c # u \<in> A" "v \<in> star A"
    by (auto simp: conc_def Deriv_def)
  then have "(c # u) @ v \<in> star A" by (intro star.star_step)
  with \<open>w = u @ v\<close> show "w \<in> Deriv c (star A)" by (simp add: Deriv_def)
qed

lemma Deriv_upto_lang:
  "Deriv c (upto_lang n A) =
     (if n = 0 then {} else conc (Deriv c A) (upto_lang (n - 1) A))"
proof (induction n)
  case 0
  show ?case by (simp add: Deriv_def)
next
  case (Suc n)
  have sub: "Deriv c (upto_lang n A) \<subseteq> conc (Deriv c A) (upto_lang n A)"
  proof (cases n)
    case 0
    then show ?thesis by (simp add: Deriv_def)
  next
    case (Suc k)
    with Suc.IH have "Deriv c (upto_lang n A) = conc (Deriv c A) (upto_lang k A)" by simp
    also have "\<dots> \<subseteq> conc (Deriv c A) (upto_lang (Suc k) A)"
      by (rule conc_mono) (rule upto_lang_mono)
    finally show ?thesis using Suc by simp
  qed
  have "Deriv c (upto_lang (Suc n) A) = Deriv c (conc A (upto_lang n A))"
    by (auto simp: Deriv_def)
  also have "\<dots> = conc (Deriv c A) (upto_lang n A)"
    using sub by (auto simp: Deriv_conc)
  finally show ?case by simp
qed

lemma lang_deriv: "lang (deriv c r) = Deriv c (lang r)"
proof (induction r)
  case (Cat r1 r2)
  then show ?case by (auto simp: Deriv_conc nullable_iff)
next
  case (Star r)
  then show ?case by (simp add: Deriv_star)
next
  case (Upto n r)
  then show ?case by (simp add: Deriv_upto_lang)
qed (auto simp: Deriv_def)

lemma regex_test_iff: "regex_test r s \<longleftrightarrow> s \<in> lang r"
  unfolding regex_test_def
  by (induction s arbitrary: r) (auto simp: nullable_iff lang_deriv Deriv_def)

subsection \<open>Character classes\<close>

lemma in_alnum_class: "in_class alnum_class c = is_alnum c"
  by (simp add: in_class_def alnum_class_def is_alnum_def)

lemma in_alnum_hyphen_class: "in_class alnum_hyphen_class c = is_label_char c"
  by (auto simp: in_class_def alnum_hyphen_class_def alnum_class_def is_label_char_def is_alnum_def)

lemma hyphen_not_alnum: "\<not> is_alnum (cu CHR ''-'')"
  by (simp add: is_alnum_def cu_def)

lemma dot_not_label_char: "\<not> is_label_char (cu CHR ''.'')"
  by (simp add: is_label_char_def is_alnum_def cu_def)

lemma at_not_label_char: "\<not> is_label_char (cu CHR ''@'')"
  by (simp add: is_label_char_def is_alnum_def cu_def)

lemma at_not_local_char: "\<not> is_local_char (cu CHR ''@'')"
  by (simp add: is_local_char_def in_class_def local_class_def alnum_class_def cu_def)

lemma whitespace_not_local_char: "is_js_whitespace c \<Longrightarrow> \<not> is_local_char c"
  unfolding is_js_whitespace_def is_local_char_def in_class_def local_class_def alnum_class_def cu_def
  by (auto simp: word_le_nat_alt)

subsection \<open>The language of the email expression\<close>

lemma star_class: "w \<in> star {[c] |c. P c} \<longleftrightarrow> list_all P w"
proof
  assume "w \<in> star {[c] |c. P c}"
  then show "list_all P w" by (induction rule: star.induct) auto
next
  assume "list_all P w"
  then show "w \<in> star {[c] |c. P c}"
  proof (induction w)
    case Nil
    show ?case by (rule star.star_empty)
  next
    case (Cons c w)
    then have "[c] @ w \<in> star {[c] |c. P c}" by (intro star.star_step) auto
    then show ?case by simp
  qed
qed

lemma concE:
  assumes "w \<in> conc A B"
  obtains u v where "w = u @ v" "u \<in> A" "v \<in> B"
  using assms by (auto simp: conc_def)

lemma upto_class_iff:
  "w \<in> upto_lang n {[c] |c. P c} \<longleftrightarrow> length w \<le> n \<and> list_all P w"
proof (induction n arbitrary: w)
  case 0
  show ?case by auto
next
  case (Suc n)
  show ?case
  proof
    assume "w \<in> upto_lang (Suc n) {[c] |c. P c}"
    then consider "w = []" | "w \<in> conc {[c] |c. P c} (upto_lang n {[c] |c. P c})"
      by auto
    then show "length w \<le> Suc n \<and> list_all P w"
    proof cases
      case 1
      then show ?thesis by simp
    next
      case 2
      then obtain u v where w: "w = u @ v" and u: "u \<in> {[c] |c. P c}"
        and v: "v \<in> upto_lang n {[c] |c. P c}"
        by (rule concE)
      from v have "length v \<le> n \<and> list_all P v" by (simp only: Suc.IH)
      moreover from u obtain c where "u = [c]" "P c" by blast
      ultimately show ?thesis using w by simp
    qed
  next
    assume w: "length w \<le> Suc n \<and> list_all P w"
    show "w \<in> upto_lang (Suc n) {[c] |c. P c}"
    proof (cases w)
      case Nil
      then show ?thesis by simp
    next
      case (Cons c t)
      with w have "length t \<le> n \<and> list_all P t" by simp
      then have "t \<in> upto_lang n {[c] |c. P c}" by (simp only: Suc.IH)
      moreover from Cons w have "[c] \<in> {[c] |c. P c}" by simp
      ultimately have "[c] @ t \<in> conc {[c] |c. P c} (upto_lang n {[c] |c. P c})"
        by (intro concI)
      with Cons show ?thesis by simp
    qed
  qed
qed

lemma upto_class: "upto_lang n {[c] |c. P c} = {w. length w \<le> n \<and> list_all P w}"
  using upto_class_iff by blast

lemma lang_label_unfold:
  "lang label_regex =
     conc {[c] |c. is_alnum c}
       (conc {w. length w \<le> 61 \<and> list_all is_label_char w} {[c] |c. is_alnum c} \<union> {[]})"
  by (simp add: label_regex_def Optional_def in_alnum_class in_alnum_hyphen_class upto_class)

lemma lang_label: "w \<in> lang label_regex \<longleftrightarrow> label_ok w"
proof
  assume "w \<in> lang label_regex"
  then obtain u v where w: "w = u @ v" and u: "u \<in> {[c] |c. is_alnum c}"
    and v: "v \<in> conc {w. length w \<le> 61 \<and> list_all is_label_char w} {[c] |c. is_alnum c} \<union> {[]}"
    unfolding lang_label_unfold by (rule concE)
  from u obtain a where a: "u = [a]" "is_alnum a" by blast
  from v show "label_ok w"
  proof
    assume "v \<in> {[]}"
    with w a show ?thesis using hyphen_not_alnum by (auto simp: label_ok_def is_label_char_def)
  next
    assume "v \<in> conc {w. length w \<le> 61 \<and> list_all is_label_char w} {[c] |c. is_alnum c}"
    then obtain m y where v': "v = m @ y" and m: "m \<in> {w. length w \<le> 61 \<and> list_all is_label_char w}"
      and y: "y \<in> {[c] |c. is_alnum c}"
      by (rule concE)
    from y obtain z where z: "y = [z]" "is_alnum z" by blast
    have "w = a # m @ [z]" using w a v' z by simp
    moreover have "a \<noteq> cu CHR ''-''" "z \<noteq> cu CHR ''-''" using a z hyphen_not_alnum by auto
    ultimately show ?thesis using m a z by (simp add: label_ok_def is_label_char_def)
  qed
next
  assume ok: "label_ok w"
  then obtain a t where w: "w = a # t" by (cases w) (auto simp: label_ok_def)
  with ok have a: "is_alnum a" by (auto simp: label_ok_def is_label_char_def)
  then have A: "[a] \<in> {[c] |c. is_alnum c}" by simp
  have "t \<in> conc {w. length w \<le> 61 \<and> list_all is_label_char w} {[c] |c. is_alnum c} \<union> {[]}"
  proof (cases "t = []")
    case True
    then show ?thesis by simp
  next
    case False
    then have t: "butlast t @ [last t] = t" by simp
    from ok w False have "last t \<noteq> cu CHR ''-''" "list_all is_label_char t" "length t \<le> 62"
      by (auto simp: label_ok_def)
    with False have z: "is_alnum (last t)" and m: "list_all is_label_char (butlast t)"
      and len: "length (butlast t) \<le> 61"
      by (auto simp: is_label_char_def list_all_iff dest: in_set_butlastD)
    have "butlast t @ [last t] \<in> conc {w. length w \<le> 61 \<and> list_all is_label_char w} {[c] |c. is_alnum c}"
      using z m len by (intro concI) auto
    with t show ?thesis by simp
  qed
  with A have "[a] @ t \<in> lang label_regex"
    unfolding lang_label_unfold by (rule concI)
  with w show "w \<in> lang label_regex" by simp
qed

subsection \<open>Splitting at a separator\<close>

lemma split_on_unfold:
  "split_on c w =
     takeWhile (\<lambda>x. x \<noteq> c) w #
       (case dropWhile (\<lambda>x. x \<noteq> c) w of [] \<Rightarrow> [] | _ # r \<Rightarrow> split_on c r)"
  by (induction w) auto

lemma hd_split_on: "hd (split_on c w) = takeWhile (\<lambda>x. x \<noteq> c) w"
  by (subst split_on_unfold) simp

lemma split_on_no_sep: "c \<notin> set l \<Longrightarrow> split_on c l = [l]"
  by (induction l) auto

lemma split_on_append_sep: "c \<notin> set l \<Longrightarrow> split_on c (l @ c # r) = l # split_on c r"
  by (induction l) auto

lemma label_ok_no_dot: "label_ok l \<Longrightarrow> cu CHR ''.'' \<notin> set l"
  using dot_not_label_char by (auto simp: label_ok_def list_all_iff)

lemma label_ok_no_at: "label_ok l \<Longrightarrow> cu CHR ''@'' \<notin> set l"
  using at_not_label_char by (auto simp: label_ok_def list_all_iff)


subsection \<open>The domain part and the whole address\<close>

lemma tail_lang_split:
  "v \<in> tail_lang \<Longrightarrow>
     v = [] \<or> (\<exists>r. v = cu CHR ''.'' # r \<and> list_all label_ok (split_on (cu CHR ''.'') r))"
  unfolding tail_lang_def
proof (induction rule: star.induct)
  case star_empty
  show ?case by simp
next
  case (star_step u v)
  from star_step.hyps(1) obtain l where u: "u = cu CHR ''.'' # l" and l: "label_ok l"
    by (auto simp: conc_def)
  from star_step.IH show ?case
  proof
    assume "v = []"
    with u l show ?thesis by (simp add: split_on_no_sep label_ok_no_dot)
  next
    assume "\<exists>r. v = cu CHR ''.'' # r \<and> list_all label_ok (split_on (cu CHR ''.'') r)"
    then obtain r where "v = cu CHR ''.'' # r" "list_all label_ok (split_on (cu CHR ''.'') r)"
      by blast
    with u l show ?thesis by (simp add: split_on_append_sep label_ok_no_dot)
  qed
qed

lemma split_in_tail_lang:
  "list_all label_ok (split_on (cu CHR ''.'') r) \<Longrightarrow> cu CHR ''.'' # r \<in> tail_lang"
proof (induction "length r" arbitrary: r rule: less_induct)
  case less
  let ?d = "cu CHR ''.''"
  let ?l = "takeWhile (\<lambda>x. x \<noteq> ?d) r"
  from less.prems have l: "label_ok ?l"
    by (subst (asm) split_on_unfold) simp
  then have step: "?d # ?l \<in> conc {[?d]} {w. label_ok w}"
    by (auto simp: conc_def)
  show ?case
  proof (cases "dropWhile (\<lambda>x. x \<noteq> ?d) r")
    case Nil
    then have "\<forall>x\<in>set r. x \<noteq> ?d" by (simp only: dropWhile_eq_Nil_conv)
    then have lr: "?l = r" by (simp only: takeWhile_eq_all_conv)
    from step have "?d # r \<in> conc {[?d]} {w. label_ok w}" by (simp only: lr)
    then have "(?d # r) @ [] \<in> tail_lang"
      unfolding tail_lang_def by (rule star.star_step [OF _ star.star_empty])
    then show ?thesis by simp
  next
    case (Cons x r')
    from iffD1 [OF dropWhile_eq_Cons_conv Cons] have r: "r = ?l @ x # r'" and x: "x = ?d" by blast+
    have "split_on ?d r = ?l # split_on ?d r'"
      by (subst split_on_unfold) (simp only: Cons list.case)
    with less.prems have "list_all label_ok (split_on ?d r')" by simp
    moreover have "length r' < length r"
      by (subst r) simp
    ultimately have "?d # r' \<in> tail_lang" by (rule less.hyps [rotated])
    then have "(?d # ?l) @ (?d # r') \<in> tail_lang"
      unfolding tail_lang_def using step by (intro star.star_step)
    with r x show ?thesis by simp
  qed
qed

lemma lang_label_set: "lang label_regex = {w. label_ok w}"
  using lang_label by blast

lemma lang_tail: "lang (Star (Cat (Lit (cu CHR ''.'')) label_regex)) = tail_lang"
  by (simp add: tail_lang_def lang_label_set)

lemma lang_domain:
  "w \<in> lang (Cat label_regex (Star (Cat (Lit (cu CHR ''.'')) label_regex))) \<longleftrightarrow>
     list_all label_ok (split_on (cu CHR ''.'') w)"
proof
  assume "w \<in> lang (Cat label_regex (Star (Cat (Lit (cu CHR ''.'')) label_regex)))"
  then have "w \<in> conc {w. label_ok w} tail_lang"
    by (simp only: lang.simps(6) lang_tail lang_label_set)
  then obtain l v where w: "w = l @ v" and l: "label_ok l" and v: "v \<in> tail_lang"
    by (auto elim: concE)
  from tail_lang_split [OF v] show "list_all label_ok (split_on (cu CHR ''.'') w)"
  proof
    assume "v = []"
    with w l show ?thesis by (simp add: split_on_no_sep label_ok_no_dot)
  next
    assume "\<exists>r. v = cu CHR ''.'' # r \<and> list_all label_ok (split_on (cu CHR ''.'') r)"
    then obtain r where "v = cu CHR ''.'' # r" "list_all label_ok (split_on (cu CHR ''.'') r)"
      by blast
    with w l show ?thesis by (simp add: split_on_append_sep label_ok_no_dot)
  qed
next
  let ?d = "cu CHR ''.''"
  let ?l = "takeWhile (\<lambda>x. x \<noteq> ?d) w"
  assume ok: "list_all label_ok (split_on ?d w)"
  then have l: "label_ok ?l" by (subst (asm) split_on_unfold) simp
  have "w \<in> conc {w. label_ok w} tail_lang"
  proof (cases "dropWhile (\<lambda>x. x \<noteq> ?d) w")
    case Nil
    then have "\<forall>x\<in>set w. x \<noteq> ?d" by (simp only: dropWhile_eq_Nil_conv)
    then have lw: "?l = w" by (simp only: takeWhile_eq_all_conv)
    have "[] \<in> tail_lang" unfolding tail_lang_def by (rule star.star_empty)
    with l have "?l @ [] \<in> conc {w. label_ok w} tail_lang" by (intro concI) simp_all
    then show ?thesis by (simp only: lw append_Nil2)
  next
    case (Cons x r)
    from iffD1 [OF dropWhile_eq_Cons_conv Cons] have w: "w = ?l @ x # r" and x: "x = ?d"
      by blast+
    have "split_on ?d w = ?l # split_on ?d r"
      by (subst split_on_unfold) (simp only: Cons list.case)
    with ok have "list_all label_ok (split_on ?d r)" by simp
    then have "?d # r \<in> tail_lang" by (rule split_in_tail_lang)
    with l have "?l @ ?d # r \<in> conc {w. label_ok w} tail_lang" by (intro concI) simp_all
    with w x show ?thesis by simp
  qed
  then show "w \<in> lang (Cat label_regex (Star (Cat (Lit (cu CHR ''.'')) label_regex)))"
    by (simp only: lang.simps(6) lang_tail lang_label_set)
qed

lemma lang_local:
  "w \<in> lang (OneOrMore (Class local_class)) \<longleftrightarrow> w \<noteq> [] \<and> list_all is_local_char w"
proof -
  have eq: "{[c] |c. in_class local_class c} = {[c] |c. is_local_char c}"
    by (simp add: is_local_char_def)
  show ?thesis
  proof
    assume "w \<in> lang (OneOrMore (Class local_class))"
    then have "w \<in> conc {[c] |c. is_local_char c} (star {[c] |c. is_local_char c})"
      by (simp add: OneOrMore_def eq)
    then obtain u v where "w = u @ v" "u \<in> {[c] |c. is_local_char c}"
      "v \<in> star {[c] |c. is_local_char c}"
      by (rule concE)
    then show "w \<noteq> [] \<and> list_all is_local_char w" by (auto simp: star_class)
  next
    assume w: "w \<noteq> [] \<and> list_all is_local_char w"
    then obtain c t where ct: "w = c # t" by (cases w) auto
    with w have "[c] \<in> {[c] |c. is_local_char c}" "t \<in> star {[c] |c. is_local_char c}"
      by (auto simp: star_class)
    then have "[c] @ t \<in> conc {[c] |c. is_local_char c} (star {[c] |c. is_local_char c})"
      by (rule concI)
    with ct show "w \<in> lang (OneOrMore (Class local_class))"
      by (simp add: OneOrMore_def eq)
  qed
qed

lemma EMAIL_REGEX_grammar: "regex_test EMAIL_REGEX s = email_grammar s"
proof -
  let ?at = "cu CHR ''@''"
  let ?D = "Cat label_regex (Star (Cat (Lit (cu CHR ''.'')) label_regex))"
  let ?loc = "takeWhile (\<lambda>c. c \<noteq> ?at) s"
  let ?rest = "dropWhile (\<lambda>c. c \<noteq> ?at) s"
  have "s \<in> lang EMAIL_REGEX \<longleftrightarrow> email_grammar s"
  proof
    assume "s \<in> lang EMAIL_REGEX"
    then have "s \<in> conc (lang (OneOrMore (Class local_class))) (conc {[?at]} (lang ?D))"
      by (simp add: EMAIL_REGEX_def)
    then obtain l v where s: "s = l @ v" and l: "l \<in> lang (OneOrMore (Class local_class))"
      and v: "v \<in> conc {[?at]} (lang ?D)"
      by (rule concE)
    from v obtain d where vd: "v = ?at # d" and d: "d \<in> lang ?D"
      by (auto elim: concE)
    from l have l': "l \<noteq> []" "list_all is_local_char l" by (simp_all add: lang_local)
    then have "?at \<notin> set l" using at_not_local_char by (auto simp: list_all_iff)
    then have "\<forall>x\<in>set l. x \<noteq> ?at" by blast
    then have "?loc = l" "?rest = ?at # d"
      unfolding s vd by (simp_all add: takeWhile_append2 dropWhile_append2)
    with l' d show "email_grammar s"
      by (simp add: email_grammar_def lang_domain del: lang.simps)
  next
    assume g: "email_grammar s"
    then have loc: "?loc \<noteq> []" "list_all is_local_char ?loc" and rest: "?rest \<noteq> []"
      and dom: "list_all label_ok (split_on (cu CHR ''.'') (tl ?rest))"
      by (simp_all add: email_grammar_def Let_def)
    from rest obtain x d where xd: "?rest = x # d" by (cases ?rest) auto
    from iffD1 [OF dropWhile_eq_Cons_conv xd] have s: "s = ?loc @ x # d" and x: "x = ?at"
      by blast+
    from dom xd have "d \<in> lang ?D" by (simp add: lang_domain del: lang.simps)
    then have tl: "[?at] @ d \<in> conc {[?at]} (lang ?D)" by (intro concI) simp
    from loc have "?loc \<in> lang (OneOrMore (Class local_class))"
      by (simp add: lang_local)
    then have "?loc @ [?at] @ d \<in> conc (lang (OneOrMore (Class local_class))) (conc {[?at]} (lang ?D))"
      using tl by (rule concI)
    then have "?loc @ ?at # d \<in> lang EMAIL_REGEX" by (simp add: EMAIL_REGEX_def)
    with s x show "s \<in> lang EMAIL_REGEX" by simp
  qed
  then show ?thesis by (simp add: regex_test_iff)
qed

lemma isValidEmail_string:
  "isValidEmail (JString s) =
     Inr (s \<noteq> [] \<and> length s \<le> 254 \<and> email_grammar s \<and> \<not> js_includes s (js ''..'')
          \<and> length (takeWhile (\<lambda>c. c \<noteq> cu CHR ''@'') s) \<le> 64)"
  by (auto simp: isValidEmail_def EMAIL_REGEX_grammar hd_split_on Let_def)

lemmas email_eval =
  email_grammar_def label_ok_def is_local_char_def is_label_char_def is_alnum_def
  in_class_def local_class_def alnum_class_def js_def cu_def Let_def

lemma valid_user_example: "isValidEmail (JString (js ''user@example.com'')) = Inr True"
  by (simp add: isValidEmail_string email_eval)

lemma valid_a_b: "isValidEmail (JString (js ''a@b'')) = Inr True"
  by (simp add: isValidEmail_string email_eval)

lemma invalid_dots: "isValidEmail (JString (js ''user..name@example.com'')) = Inr False"
  by (simp add: isValidEmail_string email_eval)

lemma invalid_empty: "isValidEmail (JString (js '''')) = Inr False"
  by (simp add: isValidEmail_string email_eval)

subsection \<open>Properties of email validation\<close>

lemma js_trim_empty: "js_trim s = [] \<Longrightarrow> \<forall>c\<in>set s. is_js_whitespace c"
proof -
  assume "js_trim s = []"
  then have "dropWhile is_js_whitespace (rev (dropWhile is_js_whitespace s)) = []"
    by (simp add: js_trim_def)
  then have "\<forall>c\<in>set (dropWhile is_js_whitespace s). is_js_whitespace c"
    by (simp add: dropWhile_eq_Nil_conv)
  then have "dropWhile is_js_whitespace s = []"
    by (metis hd_dropWhile hd_in_set)
  then show ?thesis by (simp add: dropWhile_eq_Nil_conv)
qed

lemma email_grammar_hd: "email_grammar s \<Longrightarrow> s \<noteq> [] \<and> is_local_char (hd s)"
proof -
  let ?loc = "takeWhile (\<lambda>c. c \<noteq> cu CHR ''@'') s"
  assume "email_grammar s"
  then have loc: "?loc \<noteq> []" "list_all is_local_char ?loc"
    by (simp_all add: email_grammar_def Let_def)
  then obtain c t where s: "s = c # t" by (cases s) auto
  with loc have "?loc = c # takeWhile (\<lambda>c. c \<noteq> cu CHR ''@'') t"
    by (auto split: if_splits)
  with loc s show ?thesis by simp
qed

lemma email_grammar_at: "email_grammar s \<Longrightarrow> cu CHR ''@'' \<in> set s"
proof -
  assume "email_grammar s"
  then have "dropWhile (\<lambda>c. c \<noteq> cu CHR ''@'') s \<noteq> []"
    by (simp add: email_grammar_def Let_def)
  then show ?thesis by (auto simp: dropWhile_eq_Nil_conv)
qed

lemma blank_not_email: "js_trim s = [] \<Longrightarrow> s = [] \<or> \<not> email_grammar s"
proof (cases s)
  case Nil
  then show ?thesis by simp
next
  case (Cons c t)
  assume "js_trim s = []"
  with Cons have "is_js_whitespace (hd s)" using js_trim_empty by fastforce
  then have "\<not> is_local_char (hd s)" by (rule whitespace_not_local_char)
  then show ?thesis using email_grammar_hd by blast
qed

text \<open>
  C2: \<open>validateEmail\<close> returns false on every string that is empty after trimming, or
  longer than 254, or whose part before the first \<open>@\<close> is longer than 64, or that
  contains two consecutive dots, or that has no \<open>@\<close>, or that is not in the email
  grammar.
\<close>

theorem validateEmail_rejects:
  assumes "js_trim s = [] \<or> length s > 254
           \<or> length (takeWhile (\<lambda>c. c \<noteq> cu CHR ''@'') s) > 64
           \<or> js_includes s (js ''..'') \<or> cu CHR ''@'' \<notin> set s \<or> \<not> email_grammar s"
  shows "validateEmail (JString s) = Inr False"
  using assms blank_not_email [of s] email_grammar_at [of s]
  by (auto simp: validateEmail_def isValidEmail_string)

theorem validateEmail_rejects_witness:
  "(js_trim (js ''   '') = [] \<and> validateEmail (JString (js ''   '')) = Inr False)
   \<and> (length (replicate 255 (cu CHR ''a'')) > 254
      \<and> validateEmail (JString (replicate 255 (cu CHR ''a''))) = Inr False)
   \<and> (length (takeWhile (\<lambda>c. c \<noteq> cu CHR ''@'') (replicate 65 (cu CHR ''a'') @ js ''@b.c'')) > 64
      \<and> validateEmail (JString (replicate 65 (cu CHR ''a'') @ js ''@b.c'')) = Inr False)
   \<and> (js_includes (js ''user..name@example.com'') (js ''..'')
      \<and> validateEmail (JString (js ''user..name@example.com'')) = Inr False)
   \<and> (cu CHR ''@'' \<notin> set (js ''user.example.com'')
      \<and> validateEmail (JString (js ''user.example.com'')) = Inr False)
   \<and> (\<not> email_grammar (js ''user@-example.com'')
      \<and> validateEmail (JString (js ''user@-example.com'')) = Inr False)"
proof -
  have 1: "js_trim (js ''   '') = []"
    by (simp add: js_trim_def js_def cu_def is_js_whitespace_def)
  have 2: "length (replicate 255 (cu CHR ''a'')) > 254" by simp
  have 3: "length (takeWhile (\<lambda>c. c \<noteq> cu CHR ''@'') (replicate 65 (cu CHR ''a'') @ js ''@b.c'')) > 64"
  proof -
    have "takeWhile (\<lambda>c. c \<noteq> cu CHR ''@'') (replicate 65 (cu CHR ''a'') @ js ''@b.c'') =
            replicate 65 (cu CHR ''a'') @ takeWhile (\<lambda>c. c \<noteq> cu CHR ''@'') (js ''@b.c'')"
      by (rule takeWhile_append2) (simp add: cu_def)
    then show ?thesis by simp
  qed
  have 4: "js_includes (js ''user..name@example.com'') (js ''..'')"
    by (simp add: js_def cu_def)
  have 5: "cu CHR ''@'' \<notin> set (js ''user.example.com'')"
    by (simp add: js_def cu_def)
  have 6: "\<not> email_grammar (js ''user@-example.com'')"
    by (simp add: email_eval)
  show ?thesis
    using 1 2 3 4 5 6
      validateEmail_rejects [of "js ''   ''"]
      validateEmail_rejects [of "replicate 255 (cu CHR ''a'')"]
      validateEmail_rejects [of "replicate 65 (cu CHR ''a'') @ js ''@b.c''"]
      validateEmail_rejects [of "js ''user..name@example.com''"]
      validateEmail_rejects [of "js ''user.example.com''"]
      validateEmail_rejects [of "js ''user@-example.com''"]
    by blast
qed

text \<open>
  C9: \<open>validateEmail\<close> is true on \<open>user@example.com\<close>, false on
  \<open>user..name@example.com\<close>, false on the empty string and true on \<open>a@b\<close>.
\<close>

theorem validateEmail_literals:
  "validateEmail (JString (js ''user@example.com'')) = Inr True
   \<and> validateEmail (JString (js ''user..name@example.com'')) = Inr False
   \<and> validateEmail (JString (js '''')) = Inr False
   \<and> validateEmail (JString (js ''a@b'')) = Inr True"
  by (simp add: validateEmail_def valid_user_example invalid_dots invalid_empty valid_a_b)

text \<open>
  C10: \<open>validateEmail\<close> never throws: on every value it returns a boolean, and on
  every value that is not a string (\<open>null\<close> and \<open>undefined\<close> among them) it returns false.
\<close>

theorem validateEmail_total:
  "(\<exists>b. validateEmail v = Inr b) \<and> (typeof v \<noteq> ''string'' \<longrightarrow> validateEmail v = Inr False)"
proof (cases "typeof v = ''string''")
  case True
  then obtain s where "v = JString s" by (cases v) auto
  then show ?thesis by (simp add: validateEmail_def isValidEmail_string)
next
  case False
  then show ?thesis by (auto simp: validateEmail_def isValidEmail_def)
qed

theorem validateEmail_total_witness:
  "typeof JNull \<noteq> ''string'' \<and> validateEmail JNull = Inr False
   \<and> typeof JUndefined \<noteq> ''string'' \<and> validateEmail JUndefined = Inr False
   \<and> typeof (JNumber (Finite 42)) \<noteq> ''string'' \<and> validateEmail (JNumber (Finite 42)) = Inr False
   \<and> typeof (JObject 0) \<noteq> ''string'' \<and> validateEmail (JObject 0) = Inr False"
  using validateEmail_total [of JNull] validateEmail_total [of JUndefined]
    validateEmail_total [of "JNumber (Finite 42)"] validateEmail_total [of "JObject 0"]
  by simp

subsection \<open>Properties of form validation\<close>

lemma isValidEmail_string_cases:
  "isValidEmail (JString s) = Inr True \<or> isValidEmail (JString s) = Inr False"
  by (auto simp: isValidEmail_string)

lemma validateForm_unfold:
  "validateForm els now =
     Inr (if js_trim (emailInput_value els) = [] then Invalid EMPTY_EMAIL
          else if isValidEmail (JString (js_trim (emailInput_value els))) \<noteq> Inr True
            then Invalid INVALID_EMAIL
          else if privacyCheckbox els = Some False then Invalid PRIVACY_NOT_ACCEPTED
          else Valid \<lparr>email = js_trim (emailInput_value els), timestamp = now,
                       source = ''landing_page''\<rparr>)"
  using isValidEmail_string_cases [of "js_trim (emailInput_value els)"]
  by (auto simp: validateForm_def Let_def split: option.splits)

lemma validateForm_example:
  "validateForm example_form now =
     Inr (Valid \<lparr>email = js ''user@example.com'', timestamp = now, source = ''landing_page''\<rparr>)"
proof -
  have "js_trim (js ''user@example.com'') = js ''user@example.com''"
    by (simp add: js_trim_def js_def cu_def is_js_whitespace_def)
  then show ?thesis
    by (simp add: validateForm_unfold example_form_def valid_user_example) (simp add: js_def)
qed

text \<open>
  C3: \<open>validateForm\<close> checks that the email is present, then that its format is valid,
  then that consent is given (only when the form has a consent field), and returns the
  error of the first check that fails, and only that one. A blank email gives
  \<open>EMPTY_EMAIL\<close>, never \<open>INVALID_EMAIL\<close>; \<open>PRIVACY_NOT_ACCEPTED\<close> is returned exactly when
  the email is valid and the consent field is present and not checked.
\<close>

theorem validateForm_first_failing:
  "validateForm els now =
     Inr (case first_failing (checks_in_order els) of
            Some err \<Rightarrow> Invalid err
          | None \<Rightarrow> Valid \<lparr>email = js_trim (emailInput_value els), timestamp = now,
                             source = ''landing_page''\<rparr>)
   \<and> (js_trim (emailInput_value els) = [] \<longrightarrow> validateForm els now = Inr (Invalid EMPTY_EMAIL))
   \<and> (validateForm els now = Inr (Invalid PRIVACY_NOT_ACCEPTED) \<longleftrightarrow>
        validateEmail (JString (js_trim (emailInput_value els))) = Inr True
        \<and> privacyCheckbox els = Some False)"
proof -
  have "isValidEmail (JString []) \<noteq> Inr True" by (simp add: isValidEmail_string)
  then show ?thesis
    by (auto simp: validateForm_unfold first_failing_def checks_in_order_def validateEmail_def)
qed

theorem validateForm_first_failing_witness:
  "(js_trim (emailInput_value \<lparr>emailInput_value = js ''  '', privacyCheckbox = Some False\<rparr>) = []
    \<and> validateForm \<lparr>emailInput_value = js ''  '', privacyCheckbox = Some False\<rparr> 5 =
        Inr (Invalid EMPTY_EMAIL))
   \<and> (validateEmail (JString (js_trim (emailInput_value
          \<lparr>emailInput_value = js ''a@b'', privacyCheckbox = Some False\<rparr>))) = Inr True
      \<and> validateForm \<lparr>emailInput_value = js ''a@b'', privacyCheckbox = Some False\<rparr> 5 =
          Inr (Invalid PRIVACY_NOT_ACCEPTED))"
proof -
  have 1: "js_trim (emailInput_value \<lparr>emailInput_value = js ''  '', privacyCheckbox = Some False\<rparr>) = []"
    by (simp add: js_trim_def js_def cu_def is_js_whitespace_def)
  have "js_trim (js ''a@b'') = js ''a@b''"
    by (simp add: js_trim_def js_def cu_def is_js_whitespace_def)
  then have 2: "validateEmail (JString (js_trim (emailInput_value
          \<lparr>emailInput_value = js ''a@b'', privacyCheckbox = Some False\<rparr>))) = Inr True"
    by (simp add: validateEmail_def valid_a_b)
  have 3: "privacyCheckbox \<lparr>emailInput_value = js ''a@b'', privacyCheckbox = Some False\<rparr> = Some False"
    by simp
  show ?thesis
    using 1 2 3
      validateForm_first_failing [of "\<lparr>emailInput_value = js ''  '', privacyCheckbox = Some False\<rparr>" 5]
      validateForm_first_failing [of "\<lparr>emailInput_value = js ''a@b'', privacyCheckbox = Some False\<rparr>" 5]
    by blast
qed

subsection \<open>Properties of rate limiting and submission\<close>

lemma checkRateLimit_fst:
  "fst (checkRateLimit s now) \<longleftrightarrow> count_after_reset s now < maxSubmissionsPerWindow s"
  by (auto simp: checkRateLimit_def count_after_reset_def Let_def)

lemma checkRateLimit_snd:
  "snd (checkRateLimit s now) = s\<lparr>submissionCount := count_after_reset s now\<rparr>"
  by (auto simp: checkRateLimit_def count_after_reset_def Let_def)

lemma checkRateLimit_eq:
  "checkRateLimit s now =
     (count_after_reset s now < maxSubmissionsPerWindow s,
      s\<lparr>submissionCount := count_after_reset s now\<rparr>)"
  using checkRateLimit_fst [of s now] checkRateLimit_snd [of s now]
  by (cases "checkRateLimit s now") auto

lemma count_after_reset_le: "count_after_reset s now \<le> submissionCount s"
  by (simp add: count_after_reset_def)

lemma handleFormSubmit_eq:
  "handleFormSubmit els tv tc p =
     (if isSubmitting (st p) then (InProgress, p)
      else case validateForm els tv of
        Inl e \<Rightarrow> (Caught, p)
      | Inr (Invalid err) \<Rightarrow> (ValidationFailed err, p)
      | Inr (Valid data) \<Rightarrow>
          if count_after_reset (st p) tc < maxSubmissionsPerWindow (st p)
          then (Submitting data,
                p\<lparr>st := (st p)\<lparr>submissionCount := count_after_reset (st p) tc, isSubmitting := True\<rparr>,
                  pending := pending p @ [data]\<rparr>)
          else (RateLimited, p\<lparr>st := (st p)\<lparr>submissionCount := count_after_reset (st p) tc\<rparr>\<rparr>))"
  by (simp add: handleFormSubmit_def checkRateLimit_eq submitForm_start_def
      split: sum.splits validation_result.splits)

lemma handleFormSubmit_Submitting:
  assumes "handleFormSubmit els tv tc p = (Submitting data, q)"
  shows "\<not> isSubmitting (st p) \<and> count_after_reset (st p) tc < maxSubmissionsPerWindow (st p)
         \<and> q = p\<lparr>st := (st p)\<lparr>submissionCount := count_after_reset (st p) tc, isSubmitting := True\<rparr>,
                  pending := pending p @ [data]\<rparr>"
  using assms
  by (auto simp: handleFormSubmit_eq split: if_splits sum.splits validation_result.splits)

lemma submitForm_settle_Resolved:
  "snd (submitForm_settle (Resolved x) now p) =
     p\<lparr>st := (st p)\<lparr>lastSubmissionTime := now, submissionCount := submissionCount (st p) + 1,
                     isSubmitting := False\<rparr>,
       pending := tl (pending p)\<rparr>"
  by (simp add: submitForm_settle_def Let_def)

lemma submitForm_settle_Rejected:
  "snd (submitForm_settle Rejected now p) =
     p\<lparr>st := (st p)\<lparr>isSubmitting := False\<rparr>, pending := tl (pending p)\<rparr>"
  by (simp add: submitForm_settle_def)

lemma attempt_Submitting:
  assumes "attempt els t (Resolved x) t' p = (Submitting data, p')"
  shows "count_after_reset (st p) t < maxSubmissionsPerWindow (st p)
         \<and> submissionCount (st p') = count_after_reset (st p) t + 1
         \<and> lastSubmissionTime (st p') = t'
         \<and> maxSubmissionsPerWindow (st p') = maxSubmissionsPerWindow (st p)
         \<and> rateLimitWindow (st p') = rateLimitWindow (st p)
         \<and> \<not> isSubmitting (st p')"
proof -
  obtain res q where h: "handleFormSubmit els t t p = (res, q)"
    by (cases "handleFormSubmit els t t p")
  with assms have res: "res = Submitting data" and p': "p' = snd (submitForm_settle (Resolved x) t' q)"
    by (auto simp: attempt_def split: submit_result.splits)
  from handleFormSubmit_Submitting [OF h [unfolded res]] show ?thesis
    by (simp add: p' submitForm_settle_Resolved)
qed

lemma three_attempts_fill_window:
  assumes max: "maxSubmissionsPerWindow (st p0) = 3"
    and 1: "attempt f1 a1 (Resolved x1) t1 p0 = (Submitting d1, p1)"
    and 2: "attempt f2 a2 (Resolved x2) t2 p1 = (Submitting d2, p2)"
    and 3: "attempt f3 a3 (Resolved x3) t3 p2 = (Submitting d3, p3)"
    and w2: "a2 - t1 \<le> rateLimitWindow (st p0)"
    and w3: "a3 - t2 \<le> rateLimitWindow (st p0)"
  shows "submissionCount (st p3) = 3 \<and> lastSubmissionTime (st p3) = t3
         \<and> maxSubmissionsPerWindow (st p3) = 3
         \<and> rateLimitWindow (st p3) = rateLimitWindow (st p0)
         \<and> \<not> isSubmitting (st p3)"
proof -
  note A1 = attempt_Submitting [OF 1] and A2 = attempt_Submitting [OF 2]
    and A3 = attempt_Submitting [OF 3]
  from A1 w2 have c2: "count_after_reset (st p1) a2 = count_after_reset (st p0) a1 + 1"
    by (simp add: count_after_reset_def)
  from A1 A2 w3 have c3: "count_after_reset (st p2) a3 = count_after_reset (st p1) a2 + 1"
    by (simp add: count_after_reset_def)
  from A3 c3 c2 A2 A1 max have "count_after_reset (st p0) a1 + 2 < 3" by simp
  then have "count_after_reset (st p0) a1 = 0" by simp
  with A1 A2 A3 c2 c3 max show ?thesis by simp
qed

subsection \<open>Runs of the page\<close>

lemma run_Nil: "run p [] = p"
  by (simp add: run_def)

lemma run_Cons: "run p (ev # evs) = run (step p ev) evs"
  by (simp add: run_def)

lemma run_snoc: "run p (evs @ [ev]) = step (run p evs) ev"
  by (simp add: run_def)

lemma page_inv_initial: "page_inv initial_page"
  by (simp add: page_inv_def initial_page_def initial_state_def)

lemma page_inv_step: "page_inv p \<Longrightarrow> page_inv (step p ev)"
proof (cases ev)
  case (FormSubmit els tv tc)
  assume "page_inv p"
  then show ?thesis
    unfolding FormSubmit step.simps handleFormSubmit_eq
    by (auto simp: page_inv_def count_after_reset_def split: sum.splits validation_result.splits)
next
  case (TransportSettles r now)
  assume inv: "page_inv p"
  show ?thesis
  proof (cases "pending p")
    case Nil
    with inv show ?thesis by (simp add: TransportSettles)
  next
    case (Cons d ds)
    with inv have "ds = []" by (simp add: page_inv_def)
    with inv Cons show ?thesis
      by (cases r)
        (auto simp: TransportSettles page_inv_def submitForm_settle_Resolved submitForm_settle_Rejected)
  qed
qed

lemma page_inv_run: "page_inv p \<Longrightarrow> page_inv (run p evs)"
  by (induction evs arbitrary: p) (simp_all add: run_Nil run_Cons page_inv_step)

lemma page_inv_reachable: "page_inv (run initial_page evs)"
  by (rule page_inv_run [OF page_inv_initial])

lemma handleFormSubmit_example:
  "handleFormSubmit example_form t t (settled_page t0 n) =
     (if count_after_reset (st (settled_page t0 n)) t < 3
      then (Submitting (example_data t),
            \<lparr>st = initial_state\<lparr>lastSubmissionTime := t0,
                 submissionCount := count_after_reset (st (settled_page t0 n)) t,
                 isSubmitting := True\<rparr>,
              pending = [example_data t]\<rparr>)
      else (RateLimited,
            settled_page t0 (count_after_reset (st (settled_page t0 n)) t)))"
  by (simp add: handleFormSubmit_eq validateForm_example settled_page_def initial_state_def
      example_data_def)

lemma attempt_example:
  "attempt example_form t (Resolved x) t' (settled_page t0 n) =
     (if count_after_reset (st (settled_page t0 n)) t < 3
      then (Submitting (example_data t),
            settled_page t' (count_after_reset (st (settled_page t0 n)) t + 1))
      else (RateLimited,
            settled_page t0 (count_after_reset (st (settled_page t0 n)) t)))"
  unfolding attempt_def handleFormSubmit_example
  by (simp add: submitForm_settle_Resolved settled_page_def initial_state_def)

lemma run_attempt:
  "run p (FormSubmit els t t # TransportSettles r t' # evs) =
     run (if pending (snd (handleFormSubmit els t t p)) = []
          then snd (handleFormSubmit els t t p)
          else snd (submitForm_settle r t' (snd (handleFormSubmit els t t p)))) evs"
  by (simp add: run_Cons)

lemma count_after_reset_settled:
  "count_after_reset (st (settled_page t0 n)) t = (if t - t0 > 60000 then 0 else n)"
  by (simp add: count_after_reset_def settled_page_def initial_state_def)

lemma initial_page_settled: "initial_page = settled_page 0 0"
  by (simp add: initial_page_def settled_page_def initial_state_def)

lemma run_example_round:
  "run (settled_page t0 n) (FormSubmit example_form t t # TransportSettles (Resolved x) t' # evs) =
     run (if count_after_reset (st (settled_page t0 n)) t < 3
          then settled_page t' (count_after_reset (st (settled_page t0 n)) t + 1)
          else settled_page t0 (count_after_reset (st (settled_page t0 n)) t)) evs"
  by (simp add: run_attempt handleFormSubmit_example submitForm_settle_Resolved)
     (simp add: settled_page_def initial_state_def)

lemma run_three_failing: "run initial_page three_failing = settled_page 105000 3"
  by (simp add: three_failing_def initial_page_settled run_example_round
      count_after_reset_settled run_Nil numeral_3_eq_3)

lemma run_three_accepted: "run initial_page three_accepted = settled_page 151000 3"
  by (simp add: three_accepted_def simulateApiCall_def initial_page_settled run_example_round
      count_after_reset_settled run_Nil numeral_3_eq_3)

subsection \<open>Claims about rate limiting and submission\<close>

text \<open>
  C1, as stated, fails: a transport call that settles with a failure result is counted.
  After the three failing submissions of \<open>three_failing\<close>, all within one window, the
  counter is 3 and a fourth submission in the same window is rejected.
\<close>

theorem failing_submissions_are_counted:
  "\<not> success failing_response
   \<and> submissionCount (st (run initial_page three_failing)) = 3
   \<and> fst (checkRateLimit (st (run initial_page three_failing)) 106000) = False
   \<and> fst (handleFormSubmit example_form 106000 106000 (run initial_page three_failing)) = RateLimited"
  by (simp add: run_three_failing handleFormSubmit_example checkRateLimit_fst
      count_after_reset_settled failing_response_def)
     (simp add: settled_page_def initial_state_def)

text \<open>
  C1, amended: \<open>submitForm\<close> leaves the rate-limit state unchanged only when the
  transport call rejects. When the call resolves, with a success or with a failure
  result, the counter is incremented and the time of the last submission is set to
  now. In particular, after three failing submissions in a row within one window, a
  fourth submission within the same window is rejected by \<open>checkRateLimit\<close>.
\<close>

theorem resolved_calls_are_counted:
  "(submissionCount (st (snd (submitForm_settle (Resolved x) now p))) = submissionCount (st p) + 1
    \<and> lastSubmissionTime (st (snd (submitForm_settle (Resolved x) now p))) = now)
   \<and> (submissionCount (st (snd (submitForm_settle Rejected now p))) = submissionCount (st p)
      \<and> lastSubmissionTime (st (snd (submitForm_settle Rejected now p))) = lastSubmissionTime (st p))
   \<and> (maxSubmissionsPerWindow (st p0) = 3
      \<and> \<not> success x1 \<and> \<not> success x2 \<and> \<not> success x3
      \<and> attempt f1 a1 (Resolved x1) t1 p0 = (Submitting d1, p1)
      \<and> attempt f2 a2 (Resolved x2) t2 p1 = (Submitting d2, p2)
      \<and> attempt f3 a3 (Resolved x3) t3 p2 = (Submitting d3, p3)
      \<and> a2 - t1 \<le> rateLimitWindow (st p0) \<and> a3 - t2 \<le> rateLimitWindow (st p0)
      \<and> a4 - t3 \<le> rateLimitWindow (st p0)
      \<longrightarrow> fst (checkRateLimit (st p3) a4) = False)"
proof -
  have "fst (checkRateLimit (st p3) a4) = False"
    if "maxSubmissionsPerWindow (st p0) = 3"
      and "attempt f1 a1 (Resolved x1) t1 p0 = (Submitting d1, p1)"
      and "attempt f2 a2 (Resolved x2) t2 p1 = (Submitting d2, p2)"
      and "attempt f3 a3 (Resolved x3) t3 p2 = (Submitting d3, p3)"
      and "a2 - t1 \<le> rateLimitWindow (st p0)" and "a3 - t2 \<le> rateLimitWindow (st p0)"
      and "a4 - t3 \<le> rateLimitWindow (st p0)"
    using three_attempts_fill_window [OF that(1-6)] that(7)
    by (simp add: checkRateLimit_fst count_after_reset_def)
  then show ?thesis
    by (simp add: submitForm_settle_Resolved submitForm_settle_Rejected)
qed

theorem resolved_calls_are_counted_witness:
  "maxSubmissionsPerWindow (st initial_page) = 3
   \<and> \<not> success failing_response
   \<and> attempt example_form 100000 (Resolved failing_response) 101000 initial_page =
       (Submitting (example_data 100000), settled_page 101000 1)
   \<and> attempt example_form 102000 (Resolved failing_response) 103000 (settled_page 101000 1) =
       (Submitting (example_data 102000), settled_page 103000 2)
   \<and> attempt example_form 104000 (Resolved failing_response) 105000 (settled_page 103000 2) =
       (Submitting (example_data 104000), settled_page 105000 3)
   \<and> 102000 - 101000 \<le> rateLimitWindow (st initial_page)
   \<and> 104000 - 103000 \<le> rateLimitWindow (st initial_page)
   \<and> 106000 - 105000 \<le> rateLimitWindow (st initial_page)
   \<and> fst (checkRateLimit (st (settled_page 105000 3)) 106000) = False"
proof -
  have 0: "maxSubmissionsPerWindow (st initial_page) = 3"
    "rateLimitWindow (st initial_page) = 60000" "\<not> success failing_response"
    by (simp_all add: initial_page_def initial_state_def failing_response_def)
  have 1: "attempt example_form 100000 (Resolved failing_response) 101000 initial_page =
       (Submitting (example_data 100000), settled_page 101000 1)"
    by (simp add: initial_page_settled attempt_example count_after_reset_settled)
  have 2: "attempt example_form 102000 (Resolved failing_response) 103000 (settled_page 101000 1) =
       (Submitting (example_data 102000), settled_page 103000 2)"
    by (simp add: attempt_example count_after_reset_settled numeral_2_eq_2)
  have 3: "attempt example_form 104000 (Resolved failing_response) 105000 (settled_page 103000 2) =
       (Submitting (example_data 104000), settled_page 105000 3)"
    by (simp add: attempt_example count_after_reset_settled)
  show ?thesis
    using 0 1 2 3
      resolved_calls_are_counted [of failing_response _ _ initial_page
        failing_response failing_response failing_response
        example_form 100000 101000 "example_data 100000" "settled_page 101000 1"
        example_form 102000 103000 "example_data 102000" "settled_page 103000 2"
        example_form 104000 105000 "example_data 104000" "settled_page 105000 3" 106000]
    by simp
qed

lemma step_count_increase:
  assumes "submissionCount (st (step p ev)) > submissionCount (st p)"
  shows "pending p \<noteq> [] \<and> (\<exists>x t. ev = TransportSettles (Resolved x) t)"
proof (cases ev)
  case (FormSubmit els tv tc)
  have "submissionCount (st (step p ev)) \<le> submissionCount (st p)"
    unfolding FormSubmit step.simps handleFormSubmit_eq
    using count_after_reset_le [of "st p" tc]
    by (auto split: sum.splits validation_result.splits)
  with assms show ?thesis by simp
next
  case (TransportSettles r now)
  with assms show ?thesis
    by (cases r) (auto simp: submitForm_settle_Rejected split: if_splits)
qed

lemma step_count_decrease:
  assumes "submissionCount (st (step p ev)) < submissionCount (st p)"
  shows "\<exists>els tv tc. ev = FormSubmit els tv tc
           \<and> tc - lastSubmissionTime (st p) > rateLimitWindow (st p)"
proof (cases ev)
  case (FormSubmit els tv tc)
  with assms have "count_after_reset (st p) tc < submissionCount (st p)"
    unfolding FormSubmit step.simps handleFormSubmit_eq
    by (auto split: sum.splits validation_result.splits if_splits)
  then have "tc - lastSubmissionTime (st p) > rateLimitWindow (st p)"
    by (auto simp: count_after_reset_def split: if_splits)
  with FormSubmit show ?thesis by blast
next
  case (TransportSettles r now)
  with assms show ?thesis
    by (cases r)
      (auto simp: submitForm_settle_Rejected submitForm_settle_Resolved split: if_splits)
qed

text \<open>
  C4, as stated, fails in its last part: the counter is also incremented after a
  submission that failed. One failing submission from the initial page takes the
  counter from 0 to 1.
\<close>

theorem count_incremented_after_failure:
  "\<not> success failing_response
   \<and> submissionCount (st initial_page) = 0
   \<and> submissionCount (st (run initial_page
        [FormSubmit example_form 100000 100000,
         TransportSettles (Resolved failing_response) 101000])) = 1"
  by (simp add: initial_page_settled run_example_round count_after_reset_settled run_Nil
      failing_response_def)
     (simp add: settled_page_def initial_state_def)

text \<open>
  C4, amended: \<open>checkRateLimit\<close> rejects exactly when the counter, taken as 0 once the
  window has passed since the last submission, has reached the maximum.
  \<open>checkRateLimit\<close> never increments the counter; the counter is incremented only when
  the promise of a pending transport call resolves, be it with a success or with a
  failure result.
\<close>

theorem checkRateLimit_rejects_iff:
  "(fst (checkRateLimit s now) = False \<longleftrightarrow>
      count_after_reset s now \<ge> maxSubmissionsPerWindow s)
   \<and> submissionCount (snd (checkRateLimit s now)) = count_after_reset s now
   \<and> submissionCount (snd (checkRateLimit s now)) \<le> submissionCount s
   \<and> (submissionCount (st (step p ev)) > submissionCount (st p) \<longrightarrow>
        pending p \<noteq> [] \<and> (\<exists>x t. ev = TransportSettles (Resolved x) t))"
  using step_count_increase [of p ev] count_after_reset_le [of s now]
  by (auto simp: checkRateLimit_fst checkRateLimit_snd)

theorem checkRateLimit_rejects_iff_witness:
  "submissionCount (st (step \<lparr>st = initial_state\<lparr>isSubmitting := True\<rparr>, pending = [example_data 100000]\<rparr>
                          (TransportSettles (Resolved failing_response) 101000)))
     > submissionCount (st \<lparr>st = initial_state\<lparr>isSubmitting := True\<rparr>, pending = [example_data 100000]\<rparr>)
   \<and> pending \<lparr>st = initial_state\<lparr>isSubmitting := True\<rparr>, pending = [example_data 100000]\<rparr> \<noteq> []
   \<and> (\<exists>x t. TransportSettles (Resolved failing_response) 101000 = TransportSettles (Resolved x) t)"
proof -
  have "submissionCount (st (step \<lparr>st = initial_state\<lparr>isSubmitting := True\<rparr>, pending = [example_data 100000]\<rparr>
                          (TransportSettles (Resolved failing_response) 101000)))
     > submissionCount (st \<lparr>st = initial_state\<lparr>isSubmitting := True\<rparr>, pending = [example_data 100000]\<rparr>)"
    by (simp add: submitForm_settle_Resolved initial_state_def)
  then show ?thesis
    using checkRateLimit_rejects_iff [of initial_state 0
        "\<lparr>st = initial_state\<lparr>isSubmitting := True\<rparr>, pending = [example_data 100000]\<rparr>"
        "TransportSettles (Resolved failing_response) 101000"]
    by blast
qed

text \<open>
  C5, as stated, fails in its last part: the window is counted from the last
  submission, not from the first. After the three accepted submissions of
  \<open>three_accepted\<close>, settled at 101000, 131000 and 151000, a fourth at 155000 is rejected,
  and a submission at 170000, more than a window after the first, is rejected too.
\<close>

theorem window_counts_from_last_submission:
  "submissionCount (st (run initial_page three_accepted)) = 3
   \<and> fst (handleFormSubmit example_form 155000 155000 (run initial_page three_accepted)) = RateLimited
   \<and> 170000 - 101000 > rateLimitWindow (st (run initial_page three_accepted))
   \<and> fst (checkRateLimit (st (run initial_page
        (three_accepted @ [FormSubmit example_form 155000 155000]))) 170000) = False
   \<and> fst (handleFormSubmit example_form 170000 170000 (run initial_page
        (three_accepted @ [FormSubmit example_form 155000 155000]))) = RateLimited"
  by (simp add: run_snoc run_three_accepted handleFormSubmit_example checkRateLimit_fst
      count_after_reset_settled)
     (simp add: settled_page_def initial_state_def)

text \<open>
  C5, amended: with at most 3 submissions per window of 60000 ms, after three accepted
  submissions within one window a fourth attempt within the same window is rejected
  by \<open>checkRateLimit\<close>, and once more than 60000 ms have passed since the last of those
  submissions, a submission is accepted again.
\<close>

theorem three_accepted_then_limited:
  assumes "maxSubmissionsPerWindow (st p0) = 3" and "rateLimitWindow (st p0) = 60000"
    and "attempt f1 a1 (Resolved x1) t1 p0 = (Submitting d1, p1)"
    and "attempt f2 a2 (Resolved x2) t2 p1 = (Submitting d2, p2)"
    and "attempt f3 a3 (Resolved x3) t3 p2 = (Submitting d3, p3)"
    and "a2 - t1 \<le> 60000" and "a3 - t2 \<le> 60000" and "a4 - t3 \<le> 60000"
    and "now - t3 > 60000" and "validateForm f5 v5 = Inr (Valid d5)"
  shows "fst (checkRateLimit (st p3) a4) = False
         \<and> fst (handleFormSubmit f4 v4 a4 p3) \<noteq> Submitting d4
         \<and> fst (checkRateLimit (st p3) now) = True
         \<and> fst (handleFormSubmit f5 v5 now (snd (handleFormSubmit f4 v4 a4 p3))) = Submitting d5"
proof -
  from three_attempts_fill_window [OF assms(1) assms(3-5)] assms(2,6,7)
  have p3: "submissionCount (st p3) = 3" "lastSubmissionTime (st p3) = t3"
    "maxSubmissionsPerWindow (st p3) = 3" "rateLimitWindow (st p3) = 60000"
    "\<not> isSubmitting (st p3)"
    by simp_all
  with assms(8) have full: "count_after_reset (st p3) a4 = 3"
    by (simp add: count_after_reset_def)
  from p3 assms(9) have free: "count_after_reset (st p3) now = 0"
    by (simp add: count_after_reset_def)
  have st4: "st (snd (handleFormSubmit f4 v4 a4 p3)) = st p3"
    using p3 full by (simp add: handleFormSubmit_eq split: sum.splits validation_result.splits)
  have "fst (handleFormSubmit f4 v4 a4 p3) \<noteq> Submitting d4"
    using p3 full by (simp add: handleFormSubmit_eq split: sum.splits validation_result.splits)
  moreover have "fst (handleFormSubmit f5 v5 now (snd (handleFormSubmit f4 v4 a4 p3))) = Submitting d5"
    using p3 free assms(10) by (simp add: handleFormSubmit_eq [of f5] st4)
  ultimately show ?thesis
    using p3 full free by (simp add: checkRateLimit_fst)
qed

theorem three_accepted_then_limited_witness:
  "maxSubmissionsPerWindow (st initial_page) = 3 \<and> rateLimitWindow (st initial_page) = 60000
   \<and> attempt example_form 100000 (Resolved (succeeding_response 101000)) 101000 initial_page =
       (Submitting (example_data 100000), settled_page 101000 1)
   \<and> attempt example_form 130000 (Resolved (succeeding_response 131000)) 131000 (settled_page 101000 1) =
       (Submitting (example_data 130000), settled_page 131000 2)
   \<and> attempt example_form 150000 (Resolved (succeeding_response 151000)) 151000 (settled_page 131000 2) =
       (Submitting (example_data 150000), settled_page 151000 3)
   \<and> (130000::int) - 101000 \<le> 60000 \<and> (150000::int) - 131000 \<le> 60000
   \<and> (155000::int) - 151000 \<le> 60000 \<and> (220000::int) - 151000 > 60000
   \<and> validateForm example_form 220000 = Inr (Valid (example_data 220000))
   \<and> fst (checkRateLimit (st (settled_page 151000 3)) 155000) = False
   \<and> fst (handleFormSubmit example_form 155000 155000 (settled_page 151000 3))
       \<noteq> Submitting (example_data 155000)
   \<and> fst (checkRateLimit (st (settled_page 151000 3)) 220000) = True
   \<and> fst (handleFormSubmit example_form 220000 220000
            (snd (handleFormSubmit example_form 155000 155000 (settled_page 151000 3))))
       = Submitting (example_data 220000)"
proof -
  have 0: "maxSubmissionsPerWindow (st initial_page) = 3"
    "rateLimitWindow (st initial_page) = 60000"
    by (simp_all add: initial_page_def initial_state_def)
  have 1: "attempt example_form 100000 (Resolved (succeeding_response 101000)) 101000 initial_page =
       (Submitting (example_data 100000), settled_page 101000 1)"
    by (simp add: initial_page_settled attempt_example count_after_reset_settled)
  have 2: "attempt example_form 130000 (Resolved (succeeding_response 131000)) 131000 (settled_page 101000 1) =
       (Submitting (example_data 130000), settled_page 131000 2)"
    by (simp add: attempt_example count_after_reset_settled numeral_2_eq_2)
  have 3: "attempt example_form 150000 (Resolved (succeeding_response 151000)) 151000 (settled_page 131000 2) =
       (Submitting (example_data 150000), settled_page 151000 3)"
    by (simp add: attempt_example count_after_reset_settled)
  have 4: "validateForm example_form 220000 = Inr (Valid (example_data 220000))"
    by (simp add: validateForm_example example_data_def)
  show ?thesis
    using three_accepted_then_limited [OF 0 1 2 3 _ _ _ _ 4,
        of 155000 220000 example_form 155000 "example_data 155000"] 0 1 2 3 4
    by simp
qed

lemma simulateApiCall_eq:
  "simulateApiCall isSuccess now =
     Resolved (if isSuccess then succeeding_response now else failing_response)"
  by (simp add: simulateApiCall_def succeeding_response_def failing_response_def)

text \<open>
  C6: while a submission is in flight, a submit of the form is rejected at once and
  leaves the page as it is, so the transport is not called; in no run of the page are
  two transport calls pending, and the guard is set exactly while one is.
\<close>

theorem single_flight:
  "(isSubmitting (st p) \<longrightarrow> handleFormSubmit els tv tc p = (InProgress, p))
   \<and> length (pending (run initial_page evs)) \<le> 1
   \<and> (isSubmitting (st (run initial_page evs)) \<longleftrightarrow> pending (run initial_page evs) \<noteq> [])"
  using page_inv_reachable [of evs]
  by (simp add: handleFormSubmit_def page_inv_def)

theorem single_flight_witness:
  "isSubmitting (st (run initial_page [FormSubmit example_form 100000 100000]))
   \<and> pending (run initial_page [FormSubmit example_form 100000 100000]) = [example_data 100000]
   \<and> handleFormSubmit example_form 100500 100500
        (run initial_page [FormSubmit example_form 100000 100000]) =
       (InProgress, run initial_page [FormSubmit example_form 100000 100000])"
proof -
  have "run initial_page [FormSubmit example_form 100000 100000] =
          \<lparr>st = initial_state\<lparr>lastSubmissionTime := 0, submissionCount := 0, isSubmitting := True\<rparr>,
            pending = [example_data 100000]\<rparr>"
    by (simp add: run_Cons run_Nil initial_page_settled handleFormSubmit_example
        count_after_reset_settled)
  then have "isSubmitting (st (run initial_page [FormSubmit example_form 100000 100000]))"
    "pending (run initial_page [FormSubmit example_form 100000 100000]) = [example_data 100000]"
    by simp_all
  then show ?thesis
    using single_flight [of "run initial_page [FormSubmit example_form 100000 100000]"
        example_form 100500 100500 "[]"]
    by blast
qed

text \<open>
  C7: when the transport call settles, with a success, with a failure or with a thrown
  error, \<open>submitForm\<close> releases the guard, so that the next submit of the form is not
  turned away as being in progress; the simulated transport always settles.
\<close>

theorem guard_released:
  "\<not> isSubmitting (st (snd (submitForm_settle r now p)))
   \<and> \<not> isSubmitting (st (snd (submitForm_settle r now (submitForm_start data p))))
   \<and> fst (handleFormSubmit els tv tc (snd (submitForm_settle r now p))) \<noteq> InProgress
   \<and> (\<exists>x. simulateApiCall isSuccess t = Resolved x)"
proof -
  have rel: "\<not> isSubmitting (st (snd (submitForm_settle r now q)))" for q
    by (cases r) (simp_all add: submitForm_settle_Resolved submitForm_settle_Rejected)
  then have "fst (handleFormSubmit els tv tc (snd (submitForm_settle r now p))) \<noteq> InProgress"
    by (simp add: handleFormSubmit_eq split: sum.splits validation_result.splits)
  with rel show ?thesis by (simp add: simulateApiCall_eq)
qed

text \<open>
  C8: the counter is reset to 0 when \<open>checkRateLimit\<close> finds that the window has passed
  since the last submission, and only then does the counter ever go down; in every
  page a run reaches, the counter is at most the maximum, and below it when a
  submission is accepted.
\<close>

theorem lazy_reset_and_bound:
  "(now - lastSubmissionTime s > rateLimitWindow s \<longrightarrow>
      submissionCount (snd (checkRateLimit s now)) = 0)
   \<and> (submissionCount (st (step p ev)) < submissionCount (st p) \<longrightarrow>
        (\<exists>els tv tc. ev = FormSubmit els tv tc
           \<and> tc - lastSubmissionTime (st p) > rateLimitWindow (st p)))
   \<and> submissionCount (st (run initial_page evs)) \<le> maxSubmissionsPerWindow (st (run initial_page evs))
   \<and> (fst (handleFormSubmit els tv tc (run initial_page evs)) = Submitting data \<longrightarrow>
        submissionCount (st (snd (handleFormSubmit els tv tc (run initial_page evs))))
          < maxSubmissionsPerWindow (st (run initial_page evs)))"
proof -
  have a: "now - lastSubmissionTime s > rateLimitWindow s \<longrightarrow>
      submissionCount (snd (checkRateLimit s now)) = 0"
    by (simp add: checkRateLimit_snd count_after_reset_def)
  have b: "submissionCount (st (step p ev)) < submissionCount (st p) \<longrightarrow>
        (\<exists>els tv tc. ev = FormSubmit els tv tc
           \<and> tc - lastSubmissionTime (st p) > rateLimitWindow (st p))"
    using step_count_decrease [of p ev] by blast
  have c: "submissionCount (st (run initial_page evs)) \<le> maxSubmissionsPerWindow (st (run initial_page evs))"
    using page_inv_reachable [of evs] by (simp add: page_inv_def)
  have d: "submissionCount (st (snd (handleFormSubmit els tv tc (run initial_page evs))))
          < maxSubmissionsPerWindow (st (run initial_page evs))"
    if "fst (handleFormSubmit els tv tc (run initial_page evs)) = Submitting data"
  proof -
    from that obtain q where "handleFormSubmit els tv tc (run initial_page evs) = (Submitting data, q)"
      by (cases "handleFormSubmit els tv tc (run initial_page evs)") simp
    from handleFormSubmit_Submitting [OF this] this show ?thesis by simp
  qed
  from a b c d show ?thesis by blast
qed

theorem lazy_reset_and_bound_witness:
  "170000 - lastSubmissionTime (st (settled_page 105000 3)) > rateLimitWindow (st (settled_page 105000 3))
   \<and> submissionCount (snd (checkRateLimit (st (settled_page 105000 3)) 170000)) = 0
   \<and> submissionCount (st (step (settled_page 105000 3) (FormSubmit example_form 170000 170000)))
       < submissionCount (st (settled_page 105000 3))
   \<and> fst (handleFormSubmit example_form 100000 100000 (run initial_page [])) =
       Submitting (example_data 100000)
   \<and> submissionCount (st (snd (handleFormSubmit example_form 100000 100000 (run initial_page []))))
       < maxSubmissionsPerWindow (st (run initial_page []))"
proof -
  have 1: "170000 - lastSubmissionTime (st (settled_page 105000 3)) > rateLimitWindow (st (settled_page 105000 3))"
    by (simp add: settled_page_def initial_state_def)
  have 2: "submissionCount (st (step (settled_page 105000 3) (FormSubmit example_form 170000 170000)))
       < submissionCount (st (settled_page 105000 3))"
    by (simp add: handleFormSubmit_example count_after_reset_settled)
       (simp add: settled_page_def initial_state_def)
  have 3: "fst (handleFormSubmit example_form 100000 100000 (run initial_page [])) =
       Submitting (example_data 100000)"
    by (simp add: run_Nil initial_page_settled handleFormSubmit_example count_after_reset_settled)
  show ?thesis
    using 1 2 3
      lazy_reset_and_bound [of "st (settled_page 105000 3)" 170000 "settled_page 105000 3"
        "FormSubmit example_form 170000 170000" "[]" example_form 100000 100000 "example_data 100000"]
    by blast
qed

end
